theory Spec2Isabelle
  imports Main
begin

section \<open>The DXL client configuration node (src/nodes/dxl-client.js)\<close>

text \<open>
  The node owns one underlying DXL client, three flags (\<open>connected\<close>, \<open>_connecting\<close>,
  \<open>_closing\<close>) and the object \<open>_users\<close> that maps a node id to the user node registered
  under it. Every function of the source is modelled as a function from the node's state
  to the list of calls it makes on its collaborators (the underlying client, the user
  nodes' \<open>status\<close> methods, the node's log, the \<open>done\<close> callbacks), in the order of the
  source, and the state it leaves. The leading underscore of \<open>_connecting\<close>, \<open>_closing\<close>,
  \<open>_users\<close> and \<open>_connect\<close> is dropped, since an Isabelle name cannot start with one;
  \<open>_connect\<close> is \<open>connect'\<close>.
\<close>

subsection \<open>Data\<close>

text \<open>A \<open>done\<close> callback is known by its identity only.\<close>

type_synonym callback = nat

text \<open>
  A user node: its \<open>id\<close> and the identity of its \<open>status\<close> method, so that two node
  objects registered under one id can be told apart.
\<close>

record user_node =
  node_id :: string
  sink :: nat

text \<open>The object literal handed to \<open>status\<close>: \<open>{fill: ..., shape: ..., text: ...}\<close>.\<close>

record status_msg =
  fill :: string
  shape :: string
  status_text :: string

text \<open>The three notifications of the underlying client that the node listens to.\<close>

datatype event = Connect | Reconnect | Close

text \<open>
  The four closures the node attaches to the underlying client: the \<open>connect\<close>,
  \<open>reconnect\<close> and \<open>close\<close> handlers of \<open>_connect\<close> (lines 98, 111, 123) and the
  \<open>function () { done() }\<close> of the node's own close handler (line 293), which is attached
  with \<open>once\<close>. Each closure is attached to one event name only.
\<close>

datatype listener = OnConnect | OnReconnect | OnClose | OnceCloseDone callback

fun listener_event :: "listener \<Rightarrow> event" where
  "listener_event OnConnect = Connect"
| "listener_event OnReconnect = Reconnect"
| "listener_event OnClose = Close"
| "listener_event (OnceCloseDone d) = Close"

fun listener_once :: "listener \<Rightarrow> bool" where
  "listener_once (OnceCloseDone d) = True"
| "listener_once l = False"

text \<open>The calls of the message passthrough (lines 193 to 288), with their arguments.\<close>

datatype client_call =
    AddEventCallback string callback
  | RemoveEventCallback string callback
  | AsyncRequest string "callback option"
  | SendEvent string
  | SendResponse string
  | RegisterServiceAsync string "(string \<times> callback) list"
  | UnregisterServiceAsync string

text \<open>What a function of the node does to the world outside the node's own fields.\<close>

datatype effect =
    ClientConnect
  | ClientSetMaxListeners nat
  | ClientOn event listener
  | ClientOnce event listener
  | ClientDisconnect "callback option"
  | ClientDestroy
  | ClientCall client_call
  | NodeStatus user_node status_msg
  | NodeLog string
  | Call callback

text \<open>
  The state: the node's fields, and of the underlying client the two things the node
  depends on, its \<open>connected\<close> property (read at line 172) and its table of listeners, in
  the order they were attached.
\<close>

record dxl_client_node =
  connected :: bool
  connecting :: bool
  closing :: bool
  users :: "(string \<times> user_node) list"
  client_connected :: bool
  client_listeners :: "listener list"

text \<open>The constructor, lines 53 to 83: a fresh client, no flag set, no user.\<close>

definition DxlClientNode :: dxl_client_node where
  "DxlClientNode =
     \<lparr>connected = False, connecting = False, closing = False, users = [],
      client_connected = False, client_listeners = []\<rparr>"

subsection \<open>The object \<open>_users\<close>\<close>

text \<open>
  A JavaScript object with string keys is an association list of its own properties in
  the order of their creation. Assigning to a key that exists keeps its place, assigning
  to a new key appends, \<open>delete\<close> removes. \<open>Object.keys\<close> and \<open>for (id in ...)\<close> with
  \<open>hasOwnProperty\<close> enumerate the keys that are array indices first, in ascending
  numeric order, and then the other keys in the order of creation. The ids are node ids of
  the hosting framework; the key \<open>__proto__\<close>, which an assignment does not store as an
  own property, is not one of them.
\<close>

definition is_digit :: "char \<Rightarrow> bool" where
  "is_digit c = (48 \<le> (of_char c :: nat) \<and> (of_char c :: nat) \<le> 57)"

definition index_value :: "string \<Rightarrow> nat" where
  "index_value s = foldl (\<lambda>a c. 10 * a + ((of_char c :: nat) - 48)) 0 s"

definition is_array_index :: "string \<Rightarrow> bool" where
  "is_array_index s =
     (case s of
        [] \<Rightarrow> False
      | c # cs \<Rightarrow> list_all is_digit s \<and> (if c = CHR ''0'' then cs = [] else True)
                 \<and> index_value s < 2 ^ 32 - 1)"

definition obj_set :: "string \<Rightarrow> 'v \<Rightarrow> (string \<times> 'v) list \<Rightarrow> (string \<times> 'v) list" where
  "obj_set k v kvs =
     (if k \<in> set (map fst kvs)
      then map (\<lambda>(k', v'). (k', if k' = k then v else v')) kvs
      else kvs @ [(k, v)])"

definition obj_delete :: "string \<Rightarrow> (string \<times> 'v) list \<Rightarrow> (string \<times> 'v) list" where
  "obj_delete k kvs = filter (\<lambda>(k', v'). k' \<noteq> k) kvs"

definition obj_keys :: "(string \<times> 'v) list \<Rightarrow> string list" where
  "obj_keys kvs =
     sort_key index_value (filter is_array_index (map fst kvs))
     @ filter (\<lambda>k. \<not> is_array_index k) (map fst kvs)"

subsection \<open>Status broadcasts\<close>

definition status_connected :: status_msg where
  "status_connected =
     \<lparr>fill = ''green'', shape = ''dot'', status_text = ''node-red:common.status.connected''\<rparr>"

definition status_connecting :: status_msg where
  "status_connecting =
     \<lparr>fill = ''yellow'', shape = ''ring'', status_text = ''node-red:common.status.connecting''\<rparr>"

definition status_disconnected :: status_msg where
  "status_disconnected =
     \<lparr>fill = ''red'', shape = ''ring'', status_text = ''node-red:common.status.disconnected''\<rparr>"

text \<open>
  The loop \<open>for (var id in node._users) { if (hasOwnProperty) node._users[id].status(m) }\<close>
  of lines 101, 112 and 126. The lookup of an enumerated key always finds its node.
\<close>

definition broadcast :: "status_msg \<Rightarrow> dxl_client_node \<Rightarrow> effect list" where
  "broadcast m s =
     concat (map (\<lambda>k. case map_of (users s) k of
                         Some u \<Rightarrow> [NodeStatus u m]
                       | None \<Rightarrow> [])
                 (obj_keys (users s)))"

subsection \<open>The handlers attached to the underlying client\<close>

text \<open>Lines 98 to 110, 111 to 121, 123 to 138 and 293.\<close>

fun run_listener :: "listener \<Rightarrow> dxl_client_node \<Rightarrow> effect list \<times> dxl_client_node" where
  "run_listener OnConnect s =
     (let s1 = s\<lparr>connecting := False\<rparr>;
          s2 = s1\<lparr>connected := True\<rparr>
      in (broadcast status_connected s2, s2))"
| "run_listener OnReconnect s = (broadcast status_connecting s, s)"
| "run_listener OnClose s =
     (if connected s then
        (let s1 = s\<lparr>connected := False\<rparr> in (broadcast status_disconnected s1, s1))
      else if connecting s then ([NodeLog ''Connect failed''], s)
      else ([], s))"
| "run_listener (OnceCloseDone d) s = ([Call d], s)"

text \<open>
  The underlying client is an event emitter: \<open>emit\<close> calls the listeners attached to the
  event at that moment, in the order they were attached; a listener attached with \<open>once\<close>
  is detached just before it is called.
\<close>

fun run_listeners :: "listener list \<Rightarrow> dxl_client_node \<Rightarrow> effect list \<times> dxl_client_node" where
  "run_listeners [] s = ([], s)"
| "run_listeners (l # ls) s =
     (let s0 = (if listener_once l
                then s\<lparr>client_listeners := remove1 l (client_listeners s)\<rparr> else s);
          (e1, s1) = run_listener l s0;
          (e2, s2) = run_listeners ls s1
      in (e1 @ e2, s2))"

definition client_emit :: "event \<Rightarrow> dxl_client_node \<Rightarrow> effect list \<times> dxl_client_node" where
  "client_emit ev s =
     run_listeners (filter (\<lambda>l. listener_event l = ev) (client_listeners s)) s"

subsection \<open>The node's operations\<close>

text \<open>\<open>_connect\<close>, lines 92 to 140.\<close>

definition connect' :: "dxl_client_node \<Rightarrow> effect list \<times> dxl_client_node" where
  "connect' s =
     (if \<not> connected s \<and> \<not> connecting s then
        (let s1 = s\<lparr>connecting := True\<rparr>;
             s2 = s1\<lparr>client_listeners := client_listeners s1 @ [OnConnect, OnReconnect, OnClose]\<rparr>
         in ([ClientConnect, ClientSetMaxListeners 0, ClientOn Connect OnConnect,
              ClientOn Reconnect OnReconnect, ClientOn Close OnClose], s2))
      else ([], s))"

text \<open>\<open>registerUserNode\<close>, lines 151 to 156.\<close>

definition registerUserNode :: "user_node \<Rightarrow> dxl_client_node \<Rightarrow> effect list \<times> dxl_client_node" where
  "registerUserNode userNode s =
     (let s1 = s\<lparr>users := obj_set (node_id userNode) userNode (users s)\<rparr>
      in if length (obj_keys (users s1)) = 1 then connect' s1 else ([], s1))"

text \<open>
  \<open>unregisterUserNode\<close>, lines 166 to 180. \<open>node._client\<close> is the object made by the
  constructor, so \<open>node._client && node._client.connected\<close> is the client's property.
  \<open>disconnect(done)\<close> hands \<open>done\<close> to the client, which calls it when it has
  disconnected; the node itself does not call it on that path.
\<close>

definition unregisterUserNode ::
  "user_node \<Rightarrow> callback \<Rightarrow> dxl_client_node \<Rightarrow> effect list \<times> dxl_client_node" where
  "unregisterUserNode userNode done s =
     (let s1 = s\<lparr>users := obj_delete (node_id userNode) (users s)\<rparr>
      in if closing s1 then ([Call done], s1)
         else if length (obj_keys (users s1)) = 0 then
           (if client_connected s1 then ([ClientDisconnect (Some done)], s1)
            else ([ClientDisconnect None, Call done], s1))
         else ([Call done], s1))"

text \<open>
  The message passthrough, lines 193 to 288: each function hands its arguments to the
  underlying client; \<open>removeEventCallback\<close> does so only when the node is not closing.
  An exception of the client leaves the function with the node's fields as they were.
\<close>

definition passthrough :: "client_call \<Rightarrow> dxl_client_node \<Rightarrow> effect list \<times> dxl_client_node" where
  "passthrough c s =
     (case c of
        RemoveEventCallback topic cb \<Rightarrow> (if \<not> closing s then ([ClientCall c], s) else ([], s))
      | _ \<Rightarrow> ([ClientCall c], s))"

text \<open>
  The node's own \<open>close\<close> handler, lines 290 to 299. The client's \<open>destroy\<close> closes the
  connection in the background: its \<open>close\<close> notification comes after the handler has
  returned, so \<open>this.connected\<close> reads the same at lines 292 and 296.
\<close>

definition node_on_close :: "callback \<Rightarrow> dxl_client_node \<Rightarrow> effect list \<times> dxl_client_node" where
  "node_on_close done s =
     (let s1 = s\<lparr>closing := True\<rparr>;
          (e1, s2) = (if connected s1
                      then ([ClientOnce Close (OnceCloseDone done)],
                            s1\<lparr>client_listeners := client_listeners s1 @ [OnceCloseDone done]\<rparr>)
                      else ([], s1));
          e2 = [ClientDestroy];
          e3 = (if \<not> connected s2 then [Call done] else [])
      in (e1 @ e2 @ e3, s2))"

subsection \<open>Runs\<close>

text \<open>
  What can happen to the node: a call of one of its operations, a notification of the
  underlying client, or a change of the client's \<open>connected\<close> property.
\<close>

datatype action =
    RegisterUserNode user_node
  | UnregisterUserNode user_node callback
  | Passthrough client_call
  | NodeClose callback
  | ClientEmit event
  | ClientConnected bool

fun step :: "action \<Rightarrow> dxl_client_node \<Rightarrow> effect list \<times> dxl_client_node" where
  "step (RegisterUserNode u) s = registerUserNode u s"
| "step (UnregisterUserNode u d) s = unregisterUserNode u d s"
| "step (Passthrough c) s = passthrough c s"
| "step (NodeClose d) s = node_on_close d s"
| "step (ClientEmit ev) s = client_emit ev s"
| "step (ClientConnected b) s = ([], s\<lparr>client_connected := b\<rparr>)"

fun run :: "action list \<Rightarrow> dxl_client_node \<Rightarrow> effect list \<times> dxl_client_node" where
  "run [] s = ([], s)"
| "run (a # as) s =
     (let (e1, s1) = step a s; (e2, s2) = run as s1 in (e1 @ e2, s2))"

text \<open>
  A sequence of notifications in which no \<open>close\<close> is delivered while the \<open>connected\<close>
  flag is set.
\<close>

fun no_close_while_connected :: "event list \<Rightarrow> dxl_client_node \<Rightarrow> bool" where
  "no_close_while_connected [] s = True"
| "no_close_while_connected (ev # evs) s =
     ((if ev = Close then \<not> connected s else True)
      \<and> no_close_while_connected evs (snd (client_emit ev s)))"

subsection \<open>The invariant of the reachable states\<close>

text \<open>
  The two flags exclude each other; while one of them is set the close handler is
  attached; the connect handler is never attached without the close handler; and a
  \<open>done\<close> of the node's close handler waits on the client only while the connected flag
  is set.
\<close>

definition coordinator_inv :: "dxl_client_node \<Rightarrow> bool" where
  "coordinator_inv s =
     (\<not> (connected s \<and> connecting s)
      \<and> (connected s \<or> connecting s \<longrightarrow> OnClose \<in> set (client_listeners s))
      \<and> (OnConnect \<in> set (client_listeners s) \<longrightarrow> OnClose \<in> set (client_listeners s))
      \<and> (\<forall>d. OnceCloseDone d \<in> set (client_listeners s) \<longrightarrow> connected s))"

subsection \<open>Nodes for the concrete runs\<close>

abbreviation node_a :: user_node where
  "node_a \<equiv> \<lparr>node_id = ''a1b2c3d4.e5f6a7'', sink = 1\<rparr>"

abbreviation node_a' :: user_node where
  "node_a' \<equiv> \<lparr>node_id = ''a1b2c3d4.e5f6a7'', sink = 2\<rparr>"

abbreviation node_b :: user_node where
  "node_b \<equiv> \<lparr>node_id = ''b7c8d9e0.f1a2b3'', sink = 3\<rparr>"

section \<open>Facts about the model\<close>

subsection \<open>The object \<open>_users\<close>\<close>

lemma length_obj_keys: "length (obj_keys kvs) = length kvs"
proof -
  have "length (filter is_array_index (map fst kvs))
        + length (filter (\<lambda>k. \<not> is_array_index k) (map fst kvs)) = length (map fst kvs)"
    by (rule sum_length_filter_compl)
  then show ?thesis by (simp add: obj_keys_def)
qed

lemma set_obj_keys: "set (obj_keys kvs) = fst ` set kvs"
  by (auto simp: obj_keys_def)

lemma obj_keys_single: "obj_keys [(k, v)] = [k]"
  by (simp add: obj_keys_def)

lemma map_of_overwrite:
  "map_of (map (\<lambda>(k', v'). (k', if k' = k then v else v')) kvs) x
   = (if x = k \<and> k \<in> fst ` set kvs then Some v else map_of kvs x)"
proof (induction kvs)
  case Nil
  show ?case by simp
next
  case (Cons p kvs)
  obtain a b where p: "p = (a, b)" by (cases p)
  show ?case using Cons.IH by (cases "x = k") (auto simp: p)
qed

lemma map_of_obj_set: "map_of (obj_set k v kvs) = (map_of kvs)(k \<mapsto> v)"
proof (cases "k \<in> set (map fst kvs)")
  case True
  then show ?thesis by (auto simp: obj_set_def fun_eq_iff map_of_overwrite)
next
  case False
  then have "map_of kvs k = None" by (simp add: map_of_eq_None_iff)
  with False show ?thesis by (auto simp: obj_set_def fun_eq_iff map_add_def split: option.splits)
qed

lemma obj_delete_empty_iff: "obj_delete k kvs = [] \<longleftrightarrow> (\<forall>k' \<in> fst ` set kvs. k' = k)"
  by (auto simp: obj_delete_def filter_empty_conv)

lemma length_obj_set_other:
  assumes "k' \<in> fst ` set kvs" "k' \<noteq> k"
  shows "2 \<le> length (obj_set k v kvs)"
proof (cases "k \<in> set (map fst kvs)")
  case True
  with assms have "{k, k'} \<subseteq> set (map fst kvs)" by auto
  then have "card {k, k'} \<le> card (set (map fst kvs))" by (intro card_mono) auto
  also have "\<dots> \<le> length (map fst kvs)" by (rule card_length)
  finally show ?thesis using assms True by (simp add: obj_set_def)
next
  case False
  from assms have "kvs \<noteq> []" by auto
  then have "1 \<le> length kvs" by (cases kvs) auto
  with False show ?thesis by (simp add: obj_set_def)
qed

lemma set_broadcast:
  "set (broadcast m s) = (\<lambda>u. NodeStatus u m) ` ran (map_of (users s))"
proof -
  have "\<And>k. k \<in> fst ` set (users s) \<Longrightarrow> \<exists>u. map_of (users s) k = Some u"
    by (metis domD dom_map_of_conv_image_fst)
  moreover have "\<And>k u. map_of (users s) k = Some u \<Longrightarrow> k \<in> fst ` set (users s)"
    by (metis domI dom_map_of_conv_image_fst)
  ultimately show ?thesis
    by (auto simp: broadcast_def set_obj_keys ran_def split: option.splits) force+
qed

subsection \<open>Listeners and the invariant\<close>

lemma run_listener_frame:
  "run_listener l s = (es, s') \<Longrightarrow>
     users s' = users s \<and> closing s' = closing s \<and> client_connected s' = client_connected s
     \<and> client_listeners s' = client_listeners s"
  by (cases l) (auto simp: Let_def split: if_splits)

lemma run_listener_flags:
  "run_listener l s = (es, s') \<Longrightarrow>
     (l = OnConnect \<longrightarrow> connected s' \<and> \<not> connecting s')
     \<and> (l = OnClose \<longrightarrow> \<not> connected s' \<and> connecting s' = connecting s)
     \<and> (l \<noteq> OnConnect \<and> l \<noteq> OnClose \<longrightarrow>
           connected s' = connected s \<and> connecting s' = connecting s)"
  by (cases l) (auto simp: Let_def split: if_splits)

lemma run_listeners_ConsE:
  assumes "run_listeners (l # ls) s = (es, s')"
  obtains e1 s1 e2 where
    "run_listener l (if listener_once l
                     then s\<lparr>client_listeners := remove1 l (client_listeners s)\<rparr> else s) = (e1, s1)"
    "run_listeners ls s1 = (e2, s')" "es = e1 @ e2"
  using assms by (auto simp: Let_def split: prod.splits)

lemma in_set_remove1_once:
  assumes "listener_once l" and "\<not> listener_once k"
  shows "(k \<in> set (remove1 l xs)) = (k \<in> set xs)"
proof -
  from assms have "k \<noteq> l" by auto
  then show ?thesis by (rule in_set_remove1)
qed

lemma run_listeners_frame:
  "run_listeners ls s = (es, s') \<Longrightarrow>
     users s' = users s \<and> closing s' = closing s \<and> client_connected s' = client_connected s"
proof (induction ls arbitrary: s es)
  case Nil
  then show ?case by simp
next
  case (Cons l ls)
  from Cons.prems obtain e1 s1 e2 where
    1: "run_listener l (if listener_once l
                     then s\<lparr>client_listeners := remove1 l (client_listeners s)\<rparr> else s) = (e1, s1)"
    and 2: "run_listeners ls s1 = (e2, s')"
    by (rule run_listeners_ConsE)
  from run_listener_frame [OF 1] Cons.IH [OF 2] show ?case by (simp split: if_splits)
qed

lemma run_listeners_keeps:
  "\<not> listener_once k \<Longrightarrow> run_listeners ls s = (es, s') \<Longrightarrow>
     (k \<in> set (client_listeners s')) = (k \<in> set (client_listeners s))"
proof (induction ls arbitrary: s es)
  case Nil
  then show ?case by simp
next
  case (Cons l ls)
  from Cons.prems(2) obtain e1 s1 e2 where
    1: "run_listener l (if listener_once l
                     then s\<lparr>client_listeners := remove1 l (client_listeners s)\<rparr> else s) = (e1, s1)"
    and 2: "run_listeners ls s1 = (e2, s')"
    by (rule run_listeners_ConsE)
  have "(k \<in> set (client_listeners s1)) = (k \<in> set (client_listeners s))"
    using run_listener_frame [OF 1] Cons.prems(1)
    by (cases "listener_once l") (simp_all add: in_set_remove1_once)
  with Cons.IH [OF Cons.prems(1) 2] show ?case by simp
qed

lemma run_listeners_exclusive:
  "\<not> (connected s \<and> connecting s) \<Longrightarrow> run_listeners ls s = (es, s') \<Longrightarrow>
     \<not> (connected s' \<and> connecting s')"
proof (induction ls arbitrary: s es)
  case Nil
  then show ?case by simp
next
  case (Cons l ls)
  from Cons.prems(2) obtain e1 s1 e2 where
    1: "run_listener l (if listener_once l
                     then s\<lparr>client_listeners := remove1 l (client_listeners s)\<rparr> else s) = (e1, s1)"
    and 2: "run_listeners ls s1 = (e2, s')"
    by (rule run_listeners_ConsE)
  have "\<not> (connected s1 \<and> connecting s1)"
    using run_listener_flags [OF 1] Cons.prems(1) by (cases "listener_once l") auto
  from Cons.IH [OF this 2] show ?case .
qed

lemma run_listeners_close_attached:
  assumes "OnConnect \<in> set ls \<longrightarrow> OnClose \<in> set (client_listeners s)"
    and "connected s \<or> connecting s \<longrightarrow> OnClose \<in> set (client_listeners s)"
    and "run_listeners ls s = (es, s')"
  shows "connected s' \<or> connecting s' \<longrightarrow> OnClose \<in> set (client_listeners s')"
  using assms
proof (induction ls arbitrary: s es)
  case Nil
  then show ?case by simp
next
  case (Cons l ls)
  from Cons.prems(3) obtain e1 s1 e2 where
    1: "run_listener l (if listener_once l
                     then s\<lparr>client_listeners := remove1 l (client_listeners s)\<rparr> else s) = (e1, s1)"
    and 2: "run_listeners ls s1 = (e2, s')"
    by (rule run_listeners_ConsE)
  have k: "(OnClose \<in> set (client_listeners s1)) = (OnClose \<in> set (client_listeners s))"
    using run_listener_frame [OF 1] by (cases "listener_once l") (simp_all add: in_set_remove1_once)
  have a: "OnConnect \<in> set ls \<longrightarrow> OnClose \<in> set (client_listeners s1)"
    using Cons.prems(1) k by simp
  have b: "connected s1 \<or> connecting s1 \<longrightarrow> OnClose \<in> set (client_listeners s1)"
    using run_listener_flags [OF 1] Cons.prems(1,2) k
    by (cases "listener_once l"; cases "l = OnConnect"; cases "l = OnClose") auto
  from Cons.IH [OF a b 2] show ?case .
qed

lemma count_list_remove1:
  "count_list (remove1 x xs) y = (if x = y then count_list xs y - 1 else count_list xs y)"
  by (induction xs) auto

lemma count_list_filter:
  "count_list (filter P xs) x = (if P x then count_list xs x else 0)"
  by (induction xs) auto

lemma run_listeners_once_detached:
  assumes "\<forall>d. count_list (client_listeners s) (OnceCloseDone d) \<le> count_list ls (OnceCloseDone d)"
    and "run_listeners ls s = (es, s')"
  shows "OnceCloseDone d \<notin> set (client_listeners s')"
  using assms
proof (induction ls arbitrary: s es)
  case Nil
  then have "count_list (client_listeners s') (OnceCloseDone d) = 0" by simp
  then show ?case by (simp add: count_list_0_iff)
next
  case (Cons l ls)
  from Cons.prems(2) obtain e1 s1 e2 where
    1: "run_listener l (if listener_once l
                     then s\<lparr>client_listeners := remove1 l (client_listeners s)\<rparr> else s) = (e1, s1)"
    and 2: "run_listeners ls s1 = (e2, s')"
    by (rule run_listeners_ConsE)
  have "\<forall>d. count_list (client_listeners s1) (OnceCloseDone d) \<le> count_list ls (OnceCloseDone d)"
  proof
    fix d'
    show "count_list (client_listeners s1) (OnceCloseDone d') \<le> count_list ls (OnceCloseDone d')"
      using run_listener_frame [OF 1] Cons.prems(1) [rule_format, of d']
      by (cases l) (auto simp: count_list_remove1 split: if_splits)
  qed
  from Cons.IH [OF this 2] show ?case .
qed

lemma run_listeners_not_close:
  assumes "\<forall>l \<in> set ls. listener_event l \<noteq> Close" and "run_listeners ls s = (es, s')"
  shows "client_listeners s' = client_listeners s \<and> (connected s \<longrightarrow> connected s')"
  using assms
proof (induction ls arbitrary: s es)
  case Nil
  then show ?case by simp
next
  case (Cons l ls)
  from Cons.prems(2) obtain e1 s1 e2 where
    1: "run_listener l (if listener_once l
                     then s\<lparr>client_listeners := remove1 l (client_listeners s)\<rparr> else s) = (e1, s1)"
    and 2: "run_listeners ls s1 = (e2, s')"
    by (rule run_listeners_ConsE)
  from Cons.prems(1) have l: "l = OnConnect \<or> l = OnReconnect" by (cases l) auto
  then have "client_listeners s1 = client_listeners s \<and> (connected s \<longrightarrow> connected s1)"
    using run_listener_frame [OF 1] run_listener_flags [OF 1] by auto
  moreover have "\<forall>l \<in> set ls. listener_event l \<noteq> Close" using Cons.prems(1) by simp
  from Cons.IH [OF this 2] have "client_listeners s' = client_listeners s1 \<and> (connected s1 \<longrightarrow> connected s')" .
  ultimately show ?case by simp
qed

lemma client_emit_inv:
  assumes "coordinator_inv s" and "client_emit ev s = (es, s')"
  shows "coordinator_inv s'"
proof -
  let ?ls = "filter (\<lambda>l. listener_event l = ev) (client_listeners s)"
  have r: "run_listeners ?ls s = (es, s')" using assms(2) by (simp add: client_emit_def)
  have 1: "\<not> (connected s' \<and> connecting s')"
    using assms(1) run_listeners_exclusive [OF _ r] by (simp add: coordinator_inv_def)
  have 2: "connected s' \<or> connecting s' \<longrightarrow> OnClose \<in> set (client_listeners s')"
    using assms(1) by (intro run_listeners_close_attached [OF _ _ r]) (auto simp: coordinator_inv_def)
  have 3: "OnConnect \<in> set (client_listeners s') \<longrightarrow> OnClose \<in> set (client_listeners s')"
    using assms(1) run_listeners_keeps [OF _ r, of OnConnect] run_listeners_keeps [OF _ r, of OnClose]
    by (simp add: coordinator_inv_def)
  have 4: "\<forall>d. OnceCloseDone d \<in> set (client_listeners s') \<longrightarrow> connected s'"
  proof (cases "ev = Close")
    case True
    have "\<forall>d. count_list (client_listeners s) (OnceCloseDone d) \<le> count_list ?ls (OnceCloseDone d)"
      using True by (simp add: count_list_filter)
    from run_listeners_once_detached [OF this r] show ?thesis by simp
  next
    case False
    then have "\<forall>l \<in> set ?ls. listener_event l \<noteq> Close" by simp
    from run_listeners_not_close [OF this r] assms(1) show ?thesis
      by (auto simp: coordinator_inv_def)
  qed
  from 1 2 3 4 show ?thesis by (simp add: coordinator_inv_def)
qed

lemma step_inv:
  assumes "coordinator_inv s" and "step a s = (es, s')"
  shows "coordinator_inv s'"
proof (cases a)
  case (RegisterUserNode u)
  with assms show ?thesis
    by (auto simp: registerUserNode_def connect'_def coordinator_inv_def Let_def split: if_splits)
next
  case (UnregisterUserNode u d)
  with assms show ?thesis
    by (auto simp: unregisterUserNode_def coordinator_inv_def Let_def split: if_splits)
next
  case (Passthrough c)
  with assms show ?thesis
    by (auto simp: passthrough_def coordinator_inv_def split: client_call.splits if_splits)
next
  case (NodeClose d)
  with assms show ?thesis
    by (auto simp: node_on_close_def coordinator_inv_def Let_def split: if_splits)
next
  case (ClientEmit ev)
  with assms client_emit_inv show ?thesis by auto
next
  case (ClientConnected b)
  with assms show ?thesis by (auto simp: coordinator_inv_def)
qed

lemma run_ConsE:
  assumes "run (a # as) s = (es, s')"
  obtains e1 s1 e2 where "step a s = (e1, s1)" "run as s1 = (e2, s')" "es = e1 @ e2"
  using assms by (auto simp: Let_def split: prod.splits)

lemma run_inv:
  "coordinator_inv s \<Longrightarrow> run as s = (es, s') \<Longrightarrow> coordinator_inv s'"
proof (induction as arbitrary: s es)
  case Nil
  then show ?case by simp
next
  case (Cons a as)
  from Cons.prems(2) obtain e1 s1 e2 where 1: "step a s = (e1, s1)" and 2: "run as s1 = (e2, s')"
    by (rule run_ConsE)
  from Cons.IH [OF step_inv [OF Cons.prems(1) 1] 2] show ?case .
qed

lemma init_inv: "coordinator_inv DxlClientNode"
  by (simp add: coordinator_inv_def DxlClientNode_def)

subsection \<open>Effects, flags and the closing latch\<close>

lemma broadcast_users: "users s = users t \<Longrightarrow> broadcast m s = broadcast m t"
  by (simp add: broadcast_def)

lemma run_listener_effects:
  "run_listener l s = (es, s') \<Longrightarrow> e \<in> set es \<Longrightarrow>
     (\<exists>u m. e = NodeStatus u m) \<or> e = NodeLog ''Connect failed'' \<or> (\<exists>d. e = Call d)"
  by (cases l) (auto simp: Let_def set_broadcast split: if_splits)

lemma run_listeners_effects:
  "run_listeners ls s = (es, s') \<Longrightarrow> e \<in> set es \<Longrightarrow>
     (\<exists>u m. e = NodeStatus u m) \<or> e = NodeLog ''Connect failed'' \<or> (\<exists>d. e = Call d)"
proof (induction ls arbitrary: s es)
  case Nil
  then show ?case by simp
next
  case (Cons l ls)
  from Cons.prems(1) obtain e1 s1 e2 where
    1: "run_listener l (if listener_once l
                     then s\<lparr>client_listeners := remove1 l (client_listeners s)\<rparr> else s) = (e1, s1)"
    and 2: "run_listeners ls s1 = (e2, s')" and 3: "es = e1 @ e2"
    by (rule run_listeners_ConsE)
  from Cons.prems(2) 3 have "e \<in> set e1 \<or> e \<in> set e2" by simp
  then show ?case
  proof
    assume "e \<in> set e1"
    with 1 show ?thesis by (rule run_listener_effects)
  next
    assume "e \<in> set e2"
    with 2 show ?thesis by (rule Cons.IH)
  qed
qed

lemma client_emit_effects:
  "client_emit ev s = (es, s') \<Longrightarrow> e \<in> set es \<Longrightarrow>
     (\<exists>u m. e = NodeStatus u m) \<or> e = NodeLog ''Connect failed'' \<or> (\<exists>d. e = Call d)"
  unfolding client_emit_def by (rule run_listeners_effects)

lemma client_emit_frame:
  "client_emit ev s = (es, s') \<Longrightarrow>
     users s' = users s \<and> closing s' = closing s \<and> client_connected s' = client_connected s"
  unfolding client_emit_def by (rule run_listeners_frame)

lemma connect'_connect:
  assumes "connect' s = (es, s')" and "ClientConnect \<in> set es"
  shows "\<not> connected s \<and> \<not> connecting s \<and> connecting s' \<and> \<not> connected s'
         \<and> count_list es ClientConnect = 1"
  using assms by (auto simp: connect'_def Let_def split: if_splits)

lemma step_connect:
  assumes "step a s = (es, s')" and "ClientConnect \<in> set es"
  shows "\<not> connected s \<and> \<not> connecting s \<and> connecting s' \<and> \<not> connected s'
         \<and> count_list es ClientConnect = 1"
proof (cases a)
  case (RegisterUserNode u)
  let ?s1 = "s\<lparr>users := obj_set (node_id u) u (users s)\<rparr>"
  from assms RegisterUserNode have "connect' ?s1 = (es, s')"
    by (auto simp: registerUserNode_def Let_def split: if_splits)
  from connect'_connect [OF this assms(2)] show ?thesis by simp
next
  case (UnregisterUserNode u d)
  with assms show ?thesis by (auto simp: unregisterUserNode_def Let_def split: if_splits)
next
  case (Passthrough c)
  with assms show ?thesis by (auto simp: passthrough_def split: client_call.splits if_splits)
next
  case (NodeClose d)
  with assms show ?thesis by (auto simp: node_on_close_def Let_def split: if_splits)
next
  case (ClientEmit ev)
  with assms client_emit_effects [of ev s es s' ClientConnect] show ?thesis by auto
next
  case (ClientConnected b)
  with assms show ?thesis by auto
qed

lemma run_listeners_all_connect:
  assumes "ls \<noteq> []" and "\<forall>l \<in> set ls. l = OnConnect" and "run_listeners ls s = (es, s')"
  shows "connected s' \<and> \<not> connecting s' \<and> set es = set (broadcast status_connected s)"
  using assms
proof (induction ls arbitrary: s es)
  case Nil
  then show ?case by simp
next
  case (Cons l ls)
  from Cons.prems(2) have l: "l = OnConnect" by simp
  from Cons.prems(3) obtain e1 s1 e2 where
    1: "run_listener l (if listener_once l
                     then s\<lparr>client_listeners := remove1 l (client_listeners s)\<rparr> else s) = (e1, s1)"
    and 2: "run_listeners ls s1 = (e2, s')" and 3: "es = e1 @ e2"
    by (rule run_listeners_ConsE)
  from 1 l have s1: "s1 = s\<lparr>connecting := False, connected := True\<rparr>"
    and e1: "e1 = broadcast status_connected s1"
    by (auto simp: Let_def)
  have b: "broadcast status_connected s1 = broadcast status_connected s"
    by (rule broadcast_users) (simp add: s1)
  have f: "connected s1 \<and> \<not> connecting s1" by (simp add: s1)
  show ?case
  proof (cases "ls = []")
    case True
    with 2 have "s' = s1" and "e2 = []" by simp_all
    with 3 e1 b f show ?thesis by simp
  next
    case False
    from Cons.prems(2) have "\<forall>l \<in> set ls. l = OnConnect" by simp
    from Cons.IH [OF False this 2] 3 e1 b show ?thesis by simp
  qed
qed

lemma run_listeners_close_idle:
  assumes "\<not> connected s" and "\<forall>l \<in> set ls. listener_event l = Close"
    and "run_listeners ls s = (es, s')"
  shows "\<not> connected s' \<and> connecting s' = connecting s \<and> (\<forall>u m. NodeStatus u m \<notin> set es)"
  using assms
proof (induction ls arbitrary: s es)
  case Nil
  then show ?case by simp
next
  case (Cons l ls)
  from Cons.prems(3) obtain e1 s1 e2 where
    1: "run_listener l (if listener_once l
                     then s\<lparr>client_listeners := remove1 l (client_listeners s)\<rparr> else s) = (e1, s1)"
    and 2: "run_listeners ls s1 = (e2, s')" and 3: "es = e1 @ e2"
    by (rule run_listeners_ConsE)
  from Cons.prems(2) have l: "l = OnClose \<or> (\<exists>d. l = OnceCloseDone d)" by (cases l) auto
  with 1 Cons.prems(1) have s1: "\<not> connected s1 \<and> connecting s1 = connecting s"
    and e1: "\<forall>u m. NodeStatus u m \<notin> set e1"
    by (auto split: if_splits)
  from Cons.prems(2) have "\<forall>l \<in> set ls. listener_event l = Close" by simp
  from Cons.IH [OF _ this 2] s1 e1 3 show ?case by simp
qed

lemma run_listeners_close_connected:
  assumes "connected s" and "OnClose \<in> set ls" and "\<forall>l \<in> set ls. listener_event l = Close"
    and "run_listeners ls s = (es, s')"
  shows "\<not> connected s'
         \<and> (\<forall>e. (e \<in> set es \<and> (\<exists>u m. e = NodeStatus u m))
                = (e \<in> set (broadcast status_disconnected s)))"
  using assms
proof (induction ls arbitrary: s es)
  case Nil
  then show ?case by simp
next
  case (Cons l ls)
  from Cons.prems(4) obtain e1 s1 e2 where
    1: "run_listener l (if listener_once l
                     then s\<lparr>client_listeners := remove1 l (client_listeners s)\<rparr> else s) = (e1, s1)"
    and 2: "run_listeners ls s1 = (e2, s')" and 3: "es = e1 @ e2"
    by (rule run_listeners_ConsE)
  from Cons.prems(3) have rest: "\<forall>l \<in> set ls. listener_event l = Close" by simp
  from Cons.prems(3) have "l = OnClose \<or> (\<exists>d. l = OnceCloseDone d)" by (cases l) auto
  then show ?case
  proof
    assume l: "l = OnClose"
    with 1 Cons.prems(1) have s1: "s1 = s\<lparr>connected := False\<rparr>"
      and e1: "e1 = broadcast status_disconnected s1"
      by (auto simp: Let_def)
    have b: "broadcast status_disconnected s1 = broadcast status_disconnected s"
      by (rule broadcast_users) (simp add: s1)
    have "\<not> connected s1" by (simp add: s1)
    from run_listeners_close_idle [OF this rest 2] 3 e1 b show ?thesis
      by (auto simp: set_broadcast)
  next
    assume "\<exists>d. l = OnceCloseDone d"
    then obtain d where l: "l = OnceCloseDone d" ..
    with 1 have e1: "e1 = [Call d]" and c: "connected s1 = connected s" and u: "users s1 = users s"
      by auto
    from Cons.prems(2) l have "OnClose \<in> set ls" by simp
    from Cons.IH [OF _ this rest 2] c Cons.prems(1)
    have "\<not> connected s'
         \<and> (\<forall>e. (e \<in> set e2 \<and> (\<exists>u m. e = NodeStatus u m))
                = (e \<in> set (broadcast status_disconnected s1)))" by simp
    moreover have "broadcast status_disconnected s1 = broadcast status_disconnected s"
      using u by (rule broadcast_users)
    ultimately show ?thesis using 3 e1 by auto
  qed
qed

lemma run_listeners_all_close_failed:
  assumes "\<forall>l \<in> set ls. l = OnClose" and "\<not> connected s" and "connecting s"
  shows "run_listeners ls s = (replicate (length ls) (NodeLog ''Connect failed''), s)"
  using assms by (induction ls) auto

lemma run_listeners_keeps_busy:
  assumes "\<forall>l \<in> set ls. listener_event l \<noteq> Close" and "connected s \<or> connecting s"
    and "run_listeners ls s = (es, s')"
  shows "connected s' \<or> connecting s'"
  using assms
proof (induction ls arbitrary: s es)
  case Nil
  then show ?case by simp
next
  case (Cons l ls)
  from Cons.prems(3) obtain e1 s1 e2 where
    1: "run_listener l (if listener_once l
                     then s\<lparr>client_listeners := remove1 l (client_listeners s)\<rparr> else s) = (e1, s1)"
    and 2: "run_listeners ls s1 = (e2, s')"
    by (rule run_listeners_ConsE)
  from Cons.prems(1) have l: "l = OnConnect \<or> l = OnReconnect" by (cases l) auto
  then have b: "connected s1 \<or> connecting s1"
    using run_listener_flags [OF 1] Cons.prems(2) by auto
  from Cons.prems(1) have "\<forall>l \<in> set ls. listener_event l \<noteq> Close" by simp
  from Cons.IH [OF this b 2] show ?case .
qed

lemma client_emit_keeps_busy:
  assumes "connected s \<or> connecting s" and "ev = Close \<longrightarrow> \<not> connected s"
    and "client_emit ev s = (es, s')"
  shows "connected s' \<or> connecting s'"
proof -
  let ?ls = "filter (\<lambda>l. listener_event l = ev) (client_listeners s)"
  have r: "run_listeners ?ls s = (es, s')" using assms(3) by (simp add: client_emit_def)
  show ?thesis
  proof (cases "ev = Close")
    case True
    with assms(2) have nc: "\<not> connected s" by simp
    from run_listeners_close_idle [OF nc _ r] True nc assms(1) show ?thesis by simp
  next
    case False
    then have "\<forall>l \<in> set ?ls. listener_event l \<noteq> Close" by simp
    from run_listeners_keeps_busy [OF this assms(1) r] show ?thesis .
  qed
qed

lemma notifications_keep_busy:
  assumes "run (map ClientEmit evs) s = (es, s')" and "no_close_while_connected evs s"
  shows "users s' = users s \<and> ClientConnect \<notin> set es
         \<and> (connected s \<or> connecting s \<longrightarrow> connected s' \<or> connecting s')"
  using assms
proof (induction evs arbitrary: s es)
  case Nil
  then show ?case by simp
next
  case (Cons ev evs)
  from Cons.prems(1) obtain e1 s1 e2 where 1: "client_emit ev s = (e1, s1)"
    and 2: "run (map ClientEmit evs) s1 = (e2, s')" and 3: "es = e1 @ e2"
    by (auto simp: Let_def split: prod.splits)
  from Cons.prems(2) 1 have g: "ev = Close \<longrightarrow> \<not> connected s"
    and n: "no_close_while_connected evs s1" by simp_all
  have c1: "ClientConnect \<notin> set e1" using client_emit_effects [OF 1, of ClientConnect] by auto
  have b: "connected s \<or> connecting s \<longrightarrow> connected s1 \<or> connecting s1"
    using client_emit_keeps_busy [OF _ g 1] by blast
  from Cons.IH [OF 2 n] client_emit_frame [OF 1] c1 b 3 show ?case by auto
qed

lemma connect'_busy:
  assumes "connect' s = (es, s')"
  shows "(connected s' \<or> connecting s') \<and> users s' = users s \<and> count_list es ClientConnect \<le> 1"
  using assms by (auto simp: connect'_def Let_def split: if_splits)

lemma fst_obj_set: "k \<in> fst ` set (obj_set k v kvs)"
  by (force simp: obj_set_def)

lemma obj_set_present:
  assumes "k \<in> fst ` set kvs"
  shows "length (obj_set k v kvs) = length kvs"
  using assms by (simp add: obj_set_def)

lemma step_closing:
  assumes "closing s" and "step a s = (es, s')"
  shows "closing s'"
proof (cases a)
  case (RegisterUserNode u)
  with assms show ?thesis
    by (auto simp: registerUserNode_def connect'_def Let_def split: if_splits)
next
  case (UnregisterUserNode u d)
  with assms show ?thesis
    by (auto simp: unregisterUserNode_def Let_def split: if_splits)
next
  case (Passthrough c)
  with assms show ?thesis
    by (auto simp: passthrough_def split: client_call.splits if_splits)
next
  case (NodeClose d)
  with assms show ?thesis
    by (auto simp: node_on_close_def Let_def split: if_splits)
next
  case (ClientEmit ev)
  with assms client_emit_frame [of ev s es s'] show ?thesis by simp
next
  case (ClientConnected b)
  with assms show ?thesis by auto
qed

lemma run_closing: "closing s \<Longrightarrow> run as s = (es, s') \<Longrightarrow> closing s'"
proof (induction as arbitrary: s es)
  case Nil
  then show ?case by simp
next
  case (Cons a as)
  from Cons.prems(2) obtain e1 s1 e2 where 1: "step a s = (e1, s1)" and 2: "run as s1 = (e2, s')"
    by (rule run_ConsE)
  from Cons.IH [OF step_closing [OF Cons.prems(1) 1] 2] show ?case .
qed

lemma node_on_close_closing: "node_on_close d s = (es, s') \<Longrightarrow> closing s'"
  by (auto simp: node_on_close_def Let_def split: if_splits)

lemma run_listeners_once_called:
  assumes "OnceCloseDone d \<in> set ls" and "run_listeners ls s = (es, s')"
  shows "Call d \<in> set es"
  using assms
proof (induction ls arbitrary: s es)
  case Nil
  then show ?case by simp
next
  case (Cons l ls)
  from Cons.prems(2) obtain e1 s1 e2 where
    1: "run_listener l (if listener_once l
                     then s\<lparr>client_listeners := remove1 l (client_listeners s)\<rparr> else s) = (e1, s1)"
    and 2: "run_listeners ls s1 = (e2, s')" and 3: "es = e1 @ e2"
    by (rule run_listeners_ConsE)
  show ?case
  proof (cases "l = OnceCloseDone d")
    case True
    with 1 3 show ?thesis by auto
  next
    case False
    with Cons.prems(1) have "OnceCloseDone d \<in> set ls" by simp
    from Cons.IH [OF this 2] 3 show ?thesis by simp
  qed
qed

lemma run_listeners_no_call:
  assumes "\<forall>l \<in> set ls. listener_event l \<noteq> Close" and "run_listeners ls s = (es, s')"
  shows "Call d \<notin> set es"
  using assms
proof (induction ls arbitrary: s es)
  case Nil
  then show ?case by simp
next
  case (Cons l ls)
  from Cons.prems(2) obtain e1 s1 e2 where
    1: "run_listener l (if listener_once l
                     then s\<lparr>client_listeners := remove1 l (client_listeners s)\<rparr> else s) = (e1, s1)"
    and 2: "run_listeners ls s1 = (e2, s')" and 3: "es = e1 @ e2"
    by (rule run_listeners_ConsE)
  from Cons.prems(1) have l: "l = OnConnect \<or> l = OnReconnect" by (cases l) auto
  with 1 have "Call d \<notin> set e1" by (auto simp: Let_def set_broadcast)
  moreover from Cons.prems(1) have "\<forall>l \<in> set ls. listener_event l \<noteq> Close" by simp
  from Cons.IH [OF this 2] have "Call d \<notin> set e2" .
  ultimately show ?case using 3 by simp
qed

subsection \<open>Evaluation of concrete runs\<close>

lemmas node_defs =
  DxlClientNode_def registerUserNode_def unregisterUserNode_def connect'_def client_emit_def
  node_on_close_def passthrough_def broadcast_def obj_set_def obj_delete_def length_obj_keys
  obj_keys_single status_connected_def status_connecting_def status_disconnected_def Let_def

lemma state_connecting:
  "snd (run [RegisterUserNode node_a] DxlClientNode) =
     \<lparr>connected = False, connecting = True, closing = False,
      users = [(''a1b2c3d4.e5f6a7'', node_a)], client_connected = False,
      client_listeners = [OnConnect, OnReconnect, OnClose]\<rparr>"
  by (simp add: node_defs)

lemma state_connected:
  "snd (run [RegisterUserNode node_a, ClientEmit Connect] DxlClientNode) =
     \<lparr>connected = True, connecting = False, closing = False,
      users = [(''a1b2c3d4.e5f6a7'', node_a)], client_connected = False,
      client_listeners = [OnConnect, OnReconnect, OnClose]\<rparr>"
  by (simp add: node_defs)

lemma state_idle:
  "snd (run [RegisterUserNode node_a, ClientEmit Connect, ClientEmit Close] DxlClientNode) =
     \<lparr>connected = False, connecting = False, closing = False,
      users = [(''a1b2c3d4.e5f6a7'', node_a)], client_connected = False,
      client_listeners = [OnConnect, OnReconnect, OnClose]\<rparr>"
  by (simp add: node_defs)

section \<open>The claims\<close>

subsection \<open>C1\<close>

text \<open>
  Claim C1 as stated: a \<open>close\<close> notification that arrives while the node is connecting
  clears the connecting flag, so that a later registration of a first user can start a new
  connect attempt. The close handler (lines 123 to 138) only logs on that path. After one
  user has registered and the client has reported \<open>close\<close>, the flag is still set; and
  when that user unregisters and registers again, \<open>_connect\<close> does nothing.
\<close>

theorem close_while_connecting_counterexample:
  "connecting (snd (run [RegisterUserNode node_a, ClientEmit Close] DxlClientNode))
   \<and> fst (registerUserNode node_a
        (snd (run [RegisterUserNode node_a, ClientEmit Close, UnregisterUserNode node_a 0]
                DxlClientNode))) = []"
  by (simp add: node_defs)

text \<open>
  Claim C1, amended: when a \<open>close\<close> notification arrives while the node is connecting,
  the node stays as it is, with the connecting flag set and the connected flag clear, and
  the only thing that happens is the diagnostic \<open>Connect failed\<close>, logged once by each
  close handler that is attached (at least one is); no user node's status is set.
\<close>

theorem close_while_connecting:
  assumes "run as DxlClientNode = (es0, s)" and "connecting s" and "client_emit Close s = (es, s')"
  shows "s' = s \<and> set es = {NodeLog ''Connect failed''}
         \<and> es = replicate (count_list (client_listeners s) OnClose) (NodeLog ''Connect failed'')"
proof -
  let ?ls = "filter (\<lambda>l. listener_event l = Close) (client_listeners s)"
  from run_inv [OF init_inv assms(1)] assms(2)
  have nc: "\<not> connected s" and att: "OnClose \<in> set (client_listeners s)"
    and once: "\<forall>d. OnceCloseDone d \<notin> set (client_listeners s)"
    by (auto simp: coordinator_inv_def)
  have all: "\<forall>l \<in> set ?ls. l = OnClose"
  proof
    fix l assume l: "l \<in> set ?ls"
    then have "listener_event l = Close" and "l \<in> set (client_listeners s)" by simp_all
    with once show "l = OnClose" by (cases l) auto
  qed
  have same: "?ls = filter ((=) OnClose) (client_listeners s)"
  proof (rule filter_cong [OF refl])
    fix l assume "l \<in> set (client_listeners s)"
    with once show "(listener_event l = Close) = (OnClose = l)" by (cases l) auto
  qed
  have len: "length ?ls = count_list (client_listeners s) OnClose"
    by (simp only: same count_list_eq_length_filter)
  have mem: "OnClose \<in> set ?ls" using att by simp
  have pos: "0 < length ?ls" using length_pos_if_in_set [OF mem] .
  have "client_emit Close s = (replicate (length ?ls) (NodeLog ''Connect failed''), s)"
    unfolding client_emit_def by (rule run_listeners_all_close_failed [OF all nc assms(2)])
  with assms(3) have "(es, s') = (replicate (length ?ls) (NodeLog ''Connect failed''), s)"
    by (rule trans [OF sym])
  then have 1: "s' = s"
    and es: "es = replicate (length ?ls) (NodeLog ''Connect failed'')" by blast+
  have 2: "set es = {NodeLog ''Connect failed''}" using pos by (simp add: es)
  have 3: "es = replicate (count_list (client_listeners s) OnClose) (NodeLog ''Connect failed'')"
    using es by (simp only: len)
  from 1 2 3 show ?thesis by blast
qed

text \<open>The amended claim C1 on the run in which one user has registered.\<close>

theorem close_while_connecting_witness:
  "connecting (snd (run [RegisterUserNode node_a] DxlClientNode))
   \<and> snd (client_emit Close (snd (run [RegisterUserNode node_a] DxlClientNode)))
       = snd (run [RegisterUserNode node_a] DxlClientNode)
   \<and> set (fst (client_emit Close (snd (run [RegisterUserNode node_a] DxlClientNode))))
       = {NodeLog ''Connect failed''}"
proof -
  let ?as = "[RegisterUserNode node_a]"
  let ?s = "snd (run ?as DxlClientNode)"
  have h1: "run ?as DxlClientNode = (fst (run ?as DxlClientNode), ?s)" by simp
  have h2: "connecting ?s" unfolding state_connecting by simp
  have h3: "client_emit Close ?s = (fst (client_emit Close ?s), snd (client_emit Close ?s))"
    by simp
  from close_while_connecting [OF h1 h2 h3] h2 show ?thesis by blast
qed

subsection \<open>C2\<close>

text \<open>
  Claim C2 as stated: \<open>unregisterUserNode\<close> never requests a disconnect when the id was
  absent and \<open>_users\<close> was already empty. Line 171 tests the size after the \<open>delete\<close>, not
  a change of size: on the fresh node, unregistering a node that never registered calls
  \<open>disconnect\<close>.
\<close>

theorem unregister_disconnect_counterexample:
  "users DxlClientNode = [] \<and> \<not> closing DxlClientNode
   \<and> fst (unregisterUserNode node_a 0 DxlClientNode) = [ClientDisconnect None, Call 0]"
  by (simp add: node_defs)

text \<open>
  Claim C2, amended: \<open>unregisterUserNode\<close> requests the client's disconnect exactly when
  the node is not closing and \<open>_users\<close> is empty after the removal, that is, when it held
  no id other than the removed one (the last user leaves, or it was empty already). When
  the disconnect is requested and the client reports itself connected, \<open>done\<close> is handed
  to \<open>disconnect\<close> and not called by the node; when the client does not, \<open>disconnect\<close>
  is called without a callback and \<open>done\<close> is called at once. When no disconnect is
  requested, \<open>done\<close> is called at once and nothing else happens.
\<close>

theorem unregister_disconnect:
  assumes "unregisterUserNode u d s = (es, s')"
  shows "((\<exists>cb. ClientDisconnect cb \<in> set es)
            \<longleftrightarrow> \<not> closing s \<and> (\<forall>k \<in> fst ` set (users s). k = node_id u))
         \<and> ((\<exists>cb. ClientDisconnect cb \<in> set es) \<and> client_connected s
              \<longrightarrow> es = [ClientDisconnect (Some d)])
         \<and> ((\<exists>cb. ClientDisconnect cb \<in> set es) \<and> \<not> client_connected s
              \<longrightarrow> es = [ClientDisconnect None, Call d])
         \<and> (\<not> (\<exists>cb. ClientDisconnect cb \<in> set es) \<longrightarrow> es = [Call d])
         \<and> s' = s\<lparr>users := obj_delete (node_id u) (users s)\<rparr>"
proof -
  have "(length (obj_keys (obj_delete (node_id u) (users s))) = 0)
        = (obj_delete (node_id u) (users s) = [])"
    by (simp add: length_obj_keys)
  then have e: "(length (obj_keys (obj_delete (node_id u) (users s))) = 0)
                = (\<forall>k \<in> fst ` set (users s). k = node_id u)"
    by (simp only: obj_delete_empty_iff)
  show ?thesis
  proof (cases "closing s")
    case True
    with assms show ?thesis by (auto simp: unregisterUserNode_def Let_def)
  next
    case False
    show ?thesis
    proof (cases "\<forall>k \<in> fst ` set (users s). k = node_id u")
      case True
      with e have "length (obj_keys (obj_delete (node_id u) (users s))) = 0" by simp
      with assms \<open>\<not> closing s\<close> True show ?thesis
        by (cases "client_connected s") (auto simp: unregisterUserNode_def Let_def)
    next
      case no: False
      with e have "length (obj_keys (obj_delete (node_id u) (users s))) \<noteq> 0" by simp
      with assms \<open>\<not> closing s\<close> no show ?thesis
        by (auto simp: unregisterUserNode_def Let_def)
    qed
  qed
qed

text \<open>The amended claim C2 when the only user unregisters while the client is not connected.\<close>

theorem unregister_disconnect_witness:
  "\<not> closing (snd (run [RegisterUserNode node_a] DxlClientNode))
   \<and> map fst (users (snd (run [RegisterUserNode node_a] DxlClientNode))) = [node_id node_a]
   \<and> \<not> client_connected (snd (run [RegisterUserNode node_a] DxlClientNode))
   \<and> fst (unregisterUserNode node_a 3 (snd (run [RegisterUserNode node_a] DxlClientNode)))
       = [ClientDisconnect None, Call 3]"
proof -
  let ?s = "snd (run [RegisterUserNode node_a] DxlClientNode)"
  let ?r = "unregisterUserNode node_a 3 ?s"
  have h: "?r = (fst ?r, snd ?r)" by simp
  have a: "\<not> closing ?s" and k: "map fst (users ?s) = [node_id node_a]"
    and c: "\<not> client_connected ?s"
    unfolding state_connecting by simp_all
  have "set (map fst (users ?s)) = {node_id node_a}" by (simp only: k list.set)
  then have b: "\<forall>k \<in> fst ` set (users ?s). k = node_id node_a" by simp
  from unregister_disconnect [OF h] a b c have "fst ?r = [ClientDisconnect None, Call 3]"
    by blast
  with a k c show ?thesis by blast
qed

subsection \<open>C3\<close>

text \<open>
  Claim C3 as stated: registering the same id twice, with connect and close notifications
  in between, never calls the client's \<open>connect\<close> a second time. Line 153 tests that
  \<open>_users\<close> has one key, which a second registration of the only user satisfies again:
  after \<open>connect\<close> and then \<open>close\<close> both flags are clear, and the second registration
  calls \<open>connect\<close> again.
\<close>

theorem register_twice_counterexample:
  "count_list
     (fst (run [RegisterUserNode node_a, ClientEmit Connect, ClientEmit Close,
                RegisterUserNode node_a] DxlClientNode))
     ClientConnect = 2"
  by (simp add: node_defs)

text \<open>
  Claim C3, amended: in any state, when a user node is registered, notifications of the
  client follow among which no \<open>close\<close> arrives while the connected flag is set, and a
  node with the same id is registered again, the second registration does not call the
  client's \<open>connect\<close>, and \<open>connect\<close> is called at most once in the whole.
\<close>

theorem register_twice_one_connect:
  assumes "registerUserNode u s = (e1, s1)"
    and "run (map ClientEmit evs) s1 = (e2, s2)"
    and "no_close_while_connected evs s1"
    and "node_id u' = node_id u"
    and "registerUserNode u' s2 = (e3, s3)"
  shows "ClientConnect \<notin> set e3 \<and> count_list (e1 @ e2 @ e3) ClientConnect \<le> 1"
proof -
  let ?t = "s\<lparr>users := obj_set (node_id u) u (users s)\<rparr>"
  have u1: "users s1 = obj_set (node_id u) u (users s)"
    using assms(1) connect'_busy [of ?t e1 s1]
    by (auto simp: registerUserNode_def Let_def split: if_splits)
  have j: "length (users s1) \<noteq> 1 \<or> connected s1 \<or> connecting s1"
    using assms(1) connect'_busy [of ?t e1 s1]
    by (auto simp: registerUserNode_def Let_def length_obj_keys split: if_splits)
  have c1: "count_list e1 ClientConnect \<le> 1"
    using assms(1) connect'_busy [of ?t e1 s1]
    by (auto simp: registerUserNode_def Let_def split: if_splits)
  from notifications_keep_busy [OF assms(2,3)]
  have u2: "users s2 = users s1" and c2: "ClientConnect \<notin> set e2"
    and b2: "connected s1 \<or> connecting s1 \<longrightarrow> connected s2 \<or> connecting s2" by simp_all
  have "node_id u' \<in> fst ` set (users s2)" using u1 u2 assms(4) fst_obj_set by simp
  then have len: "length (obj_set (node_id u') u' (users s2)) = length (users s1)"
    using u2 by (simp add: obj_set_present)
  have e3: "e3 = []"
  proof (cases "length (users s1) = 1")
    case True
    with j b2 have "connected s2 \<or> connecting s2" by simp
    with assms(5) show ?thesis
      by (auto simp: registerUserNode_def connect'_def Let_def split: if_splits)
  next
    case False
    with assms(5) len show ?thesis
      by (simp add: registerUserNode_def Let_def length_obj_keys)
  qed
  have "count_list e2 ClientConnect = 0" using c2 by (simp add: count_list_0_iff)
  with e3 c1 show ?thesis by simp
qed

text \<open>
  The amended claim C3 on the fresh node, with a \<open>close\<close> while connecting, a
  \<open>connect\<close> and a \<open>reconnect\<close> between the two registrations.
\<close>

theorem register_twice_one_connect_witness:
  "no_close_while_connected [Close, Connect, Reconnect] (snd (registerUserNode node_a DxlClientNode))
   \<and> ClientConnect \<in> set (fst (registerUserNode node_a DxlClientNode))
   \<and> ClientConnect \<notin> set (fst (registerUserNode node_a'
        (snd (run (map ClientEmit [Close, Connect, Reconnect])
               (snd (registerUserNode node_a DxlClientNode))))))"
proof -
  let ?p = "registerUserNode node_a DxlClientNode"
  let ?q = "run (map ClientEmit [Close, Connect, Reconnect]) (snd ?p)"
  let ?t = "registerUserNode node_a' (snd ?q)"
  have h1: "?p = (fst ?p, snd ?p)" and h2: "?q = (fst ?q, snd ?q)"
    and h5: "?t = (fst ?t, snd ?t)" by simp_all
  have h3: "no_close_while_connected [Close, Connect, Reconnect] (snd ?p)"
    by (simp add: node_defs)
  have h4: "node_id node_a' = node_id node_a" by simp
  have c: "ClientConnect \<in> set (fst ?p)" by (simp add: node_defs)
  from register_twice_one_connect [OF h1 h2 h3 h4 h5] h3 c show ?thesis by simp
qed

subsection \<open>C4\<close>

text \<open>
  Claim C4: in every state the node reaches from its construction, by any sequence of its
  operations, notifications of the client and changes of the client's \<open>connected\<close>
  property, the connected and the connecting flag are not both set; and whatever happens
  next, the client's \<open>connect\<close> is called only when both flags are clear, once, and
  leaves the connecting flag set and the connected flag clear.
\<close>

theorem flags_exclusive_connect_guarded:
  assumes "run as DxlClientNode = (es0, s)"
  shows "\<not> (connected s \<and> connecting s)
         \<and> (\<forall>a es s'. step a s = (es, s') \<and> ClientConnect \<in> set es \<longrightarrow>
               \<not> connected s \<and> \<not> connecting s \<and> connecting s' \<and> \<not> connected s'
               \<and> count_list es ClientConnect = 1)"
proof -
  from run_inv [OF init_inv assms] have "\<not> (connected s \<and> connecting s)"
    by (simp add: coordinator_inv_def)
  then show ?thesis using step_connect by blast
qed

text \<open>
  Claim C4 on the run in which a user registers, the client connects and then closes, and
  the user registers again.
\<close>

theorem flags_exclusive_connect_guarded_witness:
  "\<not> (connected (snd (run [RegisterUserNode node_a, ClientEmit Connect, ClientEmit Close] DxlClientNode))
       \<and> connecting (snd (run [RegisterUserNode node_a, ClientEmit Connect, ClientEmit Close] DxlClientNode)))
   \<and> ClientConnect \<in> set (fst (step (RegisterUserNode node_a)
        (snd (run [RegisterUserNode node_a, ClientEmit Connect, ClientEmit Close] DxlClientNode))))
   \<and> \<not> connecting (snd (run [RegisterUserNode node_a, ClientEmit Connect, ClientEmit Close] DxlClientNode))
   \<and> connecting (snd (step (RegisterUserNode node_a)
        (snd (run [RegisterUserNode node_a, ClientEmit Connect, ClientEmit Close] DxlClientNode))))"
proof -
  let ?as = "[RegisterUserNode node_a, ClientEmit Connect, ClientEmit Close]"
  let ?s = "snd (run ?as DxlClientNode)"
  let ?r = "step (RegisterUserNode node_a) ?s"
  have h1: "run ?as DxlClientNode = (fst (run ?as DxlClientNode), ?s)" by simp
  have h2: "?r = (fst ?r, snd ?r)" by simp
  have h3: "ClientConnect \<in> set (fst ?r)" unfolding state_idle by (simp add: node_defs)
  from flags_exclusive_connect_guarded [OF h1] h2 h3 show ?thesis by blast
qed

subsection \<open>C5\<close>

text \<open>
  Claim C5: when the client reports \<open>connect\<close> and the node's connect handler is attached
  (a connect attempt was started), the node clears the connecting flag, sets the connected
  flag, and calls \<open>status\<close> of the user nodes in \<open>_users\<close>, and nothing else, with the
  tuple of fill \<open>green\<close>, shape \<open>dot\<close> and text \<open>node-red:common.status.connected\<close>,
  the catalogue key of the label "connected". The tuple is written out in the statement.
\<close>

theorem connect_notification:
  assumes "OnConnect \<in> set (client_listeners s)" and "client_emit Connect s = (es, s')"
  shows "\<not> connecting s' \<and> connected s' \<and> users s' = users s
         \<and> set es =
             (\<lambda>u. NodeStatus u
                \<lparr>fill = ''green'', shape = ''dot'',
                 status_text = ''node-red:common.status.connected''\<rparr>)
             ` ran (map_of (users s))"
proof -
  let ?ls = "filter (\<lambda>l. listener_event l = Connect) (client_listeners s)"
  have r: "run_listeners ?ls s = (es, s')" using assms(2) by (simp add: client_emit_def)
  have mem: "OnConnect \<in> set ?ls" using assms(1) by simp
  have ne: "?ls \<noteq> []"
    using length_pos_if_in_set [OF mem] by simp
  have all: "\<forall>l \<in> set ?ls. l = OnConnect"
  proof
    fix l assume "l \<in> set ?ls"
    then have "listener_event l = Connect" by simp
    then show "l = OnConnect" by (cases l) auto
  qed
  from run_listeners_all_connect [OF ne all r] run_listeners_frame [OF r] show ?thesis
    by (simp add: set_broadcast status_connected_def)
qed

text \<open>Claim C5 on the run in which one user has registered.\<close>

theorem connect_notification_witness:
  "OnConnect \<in> set (client_listeners (snd (run [RegisterUserNode node_a] DxlClientNode)))
   \<and> connected (snd (client_emit Connect (snd (run [RegisterUserNode node_a] DxlClientNode))))
   \<and> \<not> connecting (snd (client_emit Connect (snd (run [RegisterUserNode node_a] DxlClientNode))))
   \<and> set (fst (client_emit Connect (snd (run [RegisterUserNode node_a] DxlClientNode))))
       = {NodeStatus node_a
            \<lparr>fill = ''green'', shape = ''dot'',
             status_text = ''node-red:common.status.connected''\<rparr>}"
proof -
  let ?s = "snd (run [RegisterUserNode node_a] DxlClientNode)"
  let ?r = "client_emit Connect ?s"
  have h1: "OnConnect \<in> set (client_listeners ?s)" unfolding state_connecting by simp
  have h2: "?r = (fst ?r, snd ?r)" by simp
  have u: "ran (map_of (users ?s)) = {node_a}" unfolding state_connecting by simp
  from connect_notification [OF h1 h2] h1 u show ?thesis by simp
qed

subsection \<open>C6\<close>

text \<open>
  Claim C6: in every state the node reaches from its construction in which the connected
  flag is set, a \<open>close\<close> notification of the client clears the connected flag, and the
  \<open>status\<close> calls it makes are those of the user nodes in \<open>_users\<close>, each with the
  tuple of fill \<open>red\<close>, shape \<open>ring\<close> and text \<open>node-red:common.status.disconnected\<close>,
  the catalogue key of the label "disconnected". The tuple is written out in the statement.
\<close>

theorem close_while_connected:
  assumes "run as DxlClientNode = (es0, s)" and "connected s" and "client_emit Close s = (es, s')"
  shows "\<not> connected s' \<and> users s' = users s
         \<and> (\<forall>u m. NodeStatus u m \<in> set es
                \<longleftrightarrow> u \<in> ran (map_of (users s))
                    \<and> m = \<lparr>fill = ''red'', shape = ''ring'',
                            status_text = ''node-red:common.status.disconnected''\<rparr>)"
proof -
  let ?ls = "filter (\<lambda>l. listener_event l = Close) (client_listeners s)"
  have r: "run_listeners ?ls s = (es, s')" using assms(3) by (simp add: client_emit_def)
  from run_inv [OF init_inv assms(1)] assms(2) have "OnClose \<in> set (client_listeners s)"
    by (simp add: coordinator_inv_def)
  then have "OnClose \<in> set ?ls" by simp
  from run_listeners_close_connected [OF assms(2) this _ r]
  have "\<not> connected s'" and
    *: "\<forall>e. (e \<in> set es \<and> (\<exists>u m. e = NodeStatus u m)) = (e \<in> set (broadcast status_disconnected s))"
    by simp_all
  have "\<And>u m. NodeStatus u m \<in> set es \<longleftrightarrow> u \<in> ran (map_of (users s)) \<and> m = status_disconnected"
    using * [rule_format, of "NodeStatus u m" for u m] by (auto simp: set_broadcast)
  with \<open>\<not> connected s'\<close> run_listeners_frame [OF r] show ?thesis
    by (simp add: status_disconnected_def)
qed

text \<open>Claim C6 on the run in which one user has registered and the client has connected.\<close>

theorem close_while_connected_witness:
  "connected (snd (run [RegisterUserNode node_a, ClientEmit Connect] DxlClientNode))
   \<and> \<not> connected (snd (client_emit Close
          (snd (run [RegisterUserNode node_a, ClientEmit Connect] DxlClientNode))))
   \<and> NodeStatus node_a
         \<lparr>fill = ''red'', shape = ''ring'',
          status_text = ''node-red:common.status.disconnected''\<rparr>
       \<in> set (fst (client_emit Close
          (snd (run [RegisterUserNode node_a, ClientEmit Connect] DxlClientNode))))"
proof -
  let ?as = "[RegisterUserNode node_a, ClientEmit Connect]"
  let ?s = "snd (run ?as DxlClientNode)"
  let ?r = "client_emit Close ?s"
  have h1: "run ?as DxlClientNode = (fst (run ?as DxlClientNode), ?s)" by simp
  have h2: "connected ?s" unfolding state_connected by simp
  have h3: "?r = (fst ?r, snd ?r)" by simp
  have u: "node_a \<in> ran (map_of (users ?s))" unfolding state_connected by simp
  from close_while_connected [OF h1 h2 h3] h2 u show ?thesis by blast
qed

subsection \<open>C7\<close>

text \<open>
  Claim C7: once the node's close handler has run, whatever happens afterwards, a call of
  \<open>unregisterUserNode\<close> removes the id from \<open>_users\<close> and calls \<open>done\<close> at once; it
  calls neither the client's \<open>disconnect\<close> nor any \<open>status\<close>.
\<close>

theorem unregister_after_teardown:
  assumes "node_on_close d0 s = (e0, s0)" and "run as s0 = (e1, s1)"
    and "unregisterUserNode u d s1 = (es, s')"
  shows "es = [Call d] \<and> s' = s1\<lparr>users := obj_delete (node_id u) (users s1)\<rparr>"
proof -
  from run_closing [OF node_on_close_closing [OF assms(1)] assms(2)] have "closing s1" .
  with assms(3) show ?thesis by (auto simp: unregisterUserNode_def Let_def)
qed

text \<open>
  Claim C7 when the node is closed while a user is registered, the client closes, another
  user registers and the first one unregisters.
\<close>

theorem unregister_after_teardown_witness:
  "fst (unregisterUserNode node_a 5
         (snd (run [ClientEmit Close, RegisterUserNode node_b]
                (snd (node_on_close 0 (snd (run [RegisterUserNode node_a] DxlClientNode)))))))
   = [Call 5]"
proof -
  let ?p = "node_on_close 0 (snd (run [RegisterUserNode node_a] DxlClientNode))"
  let ?q = "run [ClientEmit Close, RegisterUserNode node_b] (snd ?p)"
  let ?r = "unregisterUserNode node_a 5 (snd ?q)"
  have h1: "?p = (fst ?p, snd ?p)" and h2: "?q = (fst ?q, snd ?q)"
    and h3: "?r = (fst ?r, snd ?r)" by simp_all
  from unregister_after_teardown [OF h1 h2 h3] show ?thesis by simp
qed

subsection \<open>C8\<close>

text \<open>
  Claim C8: the node's close handler sets the closing flag and calls the client's
  \<open>destroy\<close> once, whatever \<open>_users\<close> holds. When the connected flag was set, it does not
  call \<open>done\<close>: it attaches it to the client's \<open>close\<close>, whose next notification calls
  it, while a \<open>connect\<close> or \<open>reconnect\<close> notification does not. When the flag was
  clear, it calls \<open>done\<close> right after \<open>destroy\<close>.
\<close>

theorem teardown_completion:
  assumes "node_on_close d s = (es, s')"
  shows "closing s' \<and> count_list es ClientDestroy = 1 \<and> users s' = users s
         \<and> (connected s \<longrightarrow> es = [ClientOnce Close (OnceCloseDone d), ClientDestroy]
                \<and> Call d \<in> set (fst (client_emit Close s'))
                \<and> Call d \<notin> set (fst (client_emit Connect s'))
                \<and> Call d \<notin> set (fst (client_emit Reconnect s')))
         \<and> (\<not> connected s \<longrightarrow> es = [ClientDestroy, Call d])"
proof (cases "connected s")
  case True
  with assms have es: "es = [ClientOnce Close (OnceCloseDone d), ClientDestroy]"
    and s': "s' = s\<lparr>closing := True, client_listeners := client_listeners s @ [OnceCloseDone d]\<rparr>"
    by (auto simp: node_on_close_def Let_def)
  let ?ls = "\<lambda>ev. filter (\<lambda>l. listener_event l = ev) (client_listeners s')"
  have "OnceCloseDone d \<in> set (?ls Close)" by (simp add: s')
  from run_listeners_once_called [OF this, of s' "fst (client_emit Close s')" "snd (client_emit Close s')"]
  have a: "Call d \<in> set (fst (client_emit Close s'))" by (simp add: client_emit_def)
  have "\<forall>l \<in> set (?ls Connect). listener_event l \<noteq> Close" by simp
  from run_listeners_no_call [OF this, of s' "fst (client_emit Connect s')" "snd (client_emit Connect s')" d]
  have b: "Call d \<notin> set (fst (client_emit Connect s'))" by (simp add: client_emit_def)
  have "\<forall>l \<in> set (?ls Reconnect). listener_event l \<noteq> Close" by simp
  from run_listeners_no_call [OF this, of s' "fst (client_emit Reconnect s')" "snd (client_emit Reconnect s')" d]
  have c: "Call d \<notin> set (fst (client_emit Reconnect s'))" by (simp add: client_emit_def)
  from True es a b c show ?thesis by (simp add: s')
next
  case False
  with assms show ?thesis by (auto simp: node_on_close_def Let_def)
qed

text \<open>Claim C8 on a connected node and on the fresh node.\<close>

theorem teardown_completion_witness:
  "connected (snd (run [RegisterUserNode node_a, ClientEmit Connect] DxlClientNode))
   \<and> fst (node_on_close 7 (snd (run [RegisterUserNode node_a, ClientEmit Connect] DxlClientNode)))
       = [ClientOnce Close (OnceCloseDone 7), ClientDestroy]
   \<and> Call 7 \<in> set (fst (client_emit Close
       (snd (node_on_close 7 (snd (run [RegisterUserNode node_a, ClientEmit Connect] DxlClientNode))))))
   \<and> \<not> connected DxlClientNode
   \<and> fst (node_on_close 7 DxlClientNode) = [ClientDestroy, Call 7]"
proof -
  let ?s = "snd (run [RegisterUserNode node_a, ClientEmit Connect] DxlClientNode)"
  let ?r = "node_on_close 7 ?s"
  let ?w = "node_on_close 7 DxlClientNode"
  have h1: "?r = (fst ?r, snd ?r)" and h2: "?w = (fst ?w, snd ?w)" by simp_all
  have c: "connected ?s" unfolding state_connected by simp
  have n: "\<not> connected DxlClientNode" by (simp add: DxlClientNode_def)
  from teardown_completion [OF h1] teardown_completion [OF h2] c n show ?thesis by blast
qed

subsection \<open>C9\<close>




subsection \<open>C10\<close>

text \<open>
  Claim C10 as stated: registering while \<open>_users\<close> is not empty triggers no connect and
  leaves the flags alone. When \<open>_users\<close> holds only the id being registered and both
  flags are clear (the client connected and then closed), line 153 finds one key again:
  \<open>connect\<close> is called and the connecting flag set.
\<close>

theorem register_frame_counterexample:
  "users (snd (run [RegisterUserNode node_a, ClientEmit Connect, ClientEmit Close] DxlClientNode)) \<noteq> []
   \<and> \<not> connecting (snd (run [RegisterUserNode node_a, ClientEmit Connect, ClientEmit Close] DxlClientNode))
   \<and> ClientConnect \<in> set (fst (registerUserNode node_a'
        (snd (run [RegisterUserNode node_a, ClientEmit Connect, ClientEmit Close] DxlClientNode))))
   \<and> connecting (snd (registerUserNode node_a'
        (snd (run [RegisterUserNode node_a, ClientEmit Connect, ClientEmit Close] DxlClientNode))))"
  unfolding state_idle by (simp add: node_defs)

text \<open>
  Claim C10, amended: registering a user node while \<open>_users\<close> holds some other id, or
  while the connected or the connecting flag is set, changes only the entry of \<open>_users\<close>
  for that id: no \<open>status\<close> and no \<open>connect\<close> is called, and the flags and the
  client's listeners are as before.
\<close>

theorem register_frame:
  assumes "(\<exists>k \<in> fst ` set (users s). k \<noteq> node_id u) \<or> connected s \<or> connecting s"
    and "registerUserNode u s = (es, s')"
  shows "es = [] \<and> s' = s\<lparr>users := obj_set (node_id u) u (users s)\<rparr>
         \<and> map_of (users s') = (map_of (users s))(node_id u \<mapsto> u)"
proof -
  let ?t = "s\<lparr>users := obj_set (node_id u) u (users s)\<rparr>"
  have "length (obj_keys (users ?t)) \<noteq> 1 \<or> connected ?t \<or> connecting ?t"
  proof (cases "\<exists>k \<in> fst ` set (users s). k \<noteq> node_id u")
    case True
    then obtain k where "k \<in> fst ` set (users s)" "k \<noteq> node_id u" by blast
    from length_obj_set_other [OF this, of u] show ?thesis by (simp add: length_obj_keys)
  next
    case False
    with assms(1) show ?thesis by simp
  qed
  with assms(2) have "es = [] \<and> s' = ?t"
    by (auto simp: registerUserNode_def connect'_def Let_def split: if_splits)
  then show ?thesis by (simp add: map_of_obj_set)
qed

text \<open>The amended claim C10 when a second user registers on a connected node.\<close>

theorem register_frame_witness:
  "(\<exists>k \<in> fst ` set (users (snd (run [RegisterUserNode node_a, ClientEmit Connect] DxlClientNode))).
       k \<noteq> node_id node_b)
   \<and> fst (registerUserNode node_b
        (snd (run [RegisterUserNode node_a, ClientEmit Connect] DxlClientNode))) = []
   \<and> connected (snd (registerUserNode node_b
        (snd (run [RegisterUserNode node_a, ClientEmit Connect] DxlClientNode))))"
proof -
  let ?s = "snd (run [RegisterUserNode node_a, ClientEmit Connect] DxlClientNode)"
  let ?r = "registerUserNode node_b ?s"
  have h1: "\<exists>k \<in> fst ` set (users ?s). k \<noteq> node_id node_b" unfolding state_connected by simp
  then have h1': "(\<exists>k \<in> fst ` set (users ?s). k \<noteq> node_id node_b) \<or> connected ?s \<or> connecting ?s"
    by simp
  have h2: "?r = (fst ?r, snd ?r)" by simp
  have c: "connected ?s" unfolding state_connected by simp
  from register_frame [OF h1' h2] have "fst ?r = []" and "snd ?r = ?s\<lparr>users := obj_set (node_id node_b) node_b (users ?s)\<rparr>"
    by simp_all
  with h1 c show ?thesis by simp
qed

end
